theory Spec2Isabelle
  imports Main
begin

section \<open>Python strings and the character database\<close>

text \<open>
  The script \<^verbatim>\<open>scripts/clean_aesop_fables.py\<close> works on Python \<^verbatim>\<open>str\<close> values: sequences
  of Unicode code points. A code point is a natural number, a string a list of them.
  \<^verbatim>\<open>py\<close> writes the string made of the (ASCII) characters of a literal.
\<close>

type_synonym codepoint = nat
type_synonym pystr = "codepoint list"

definition py :: "string \<Rightarrow> pystr" where
  "py s = map of_char s"

abbreviation LF :: codepoint where "LF \<equiv> 10"
abbreviation CR :: codepoint where "CR \<equiv> 13"
abbreviation TAB :: codepoint where "TAB \<equiv> 9"
abbreviation SPACE :: codepoint where "SPACE \<equiv> 32"
abbreviation HASH :: codepoint where "HASH \<equiv> 35"

text \<open>The delimiter token, the literal \<^verbatim>\<open>"###"\<close> of the source.\<close>

abbreviation DELIM :: pystr where "DELIM \<equiv> [HASH, HASH, HASH]"

text \<open>
  \<^verbatim>\<open>str.strip()\<close>, \<^verbatim>\<open>str.isupper()\<close> and \<^verbatim>\<open>str.isalpha()\<close> consult the Unicode character
  database of the interpreter, which is not part of the repository. It is a parameter of
  the model: the five per-character predicates that CPython reads from it
  (\<^verbatim>\<open>Py_UNICODE_ISSPACE\<close>, \<^verbatim>\<open>ISUPPER\<close>, \<^verbatim>\<open>ISLOWER\<close>, \<^verbatim>\<open>ISTITLE\<close>, \<^verbatim>\<open>ISALPHA\<close>).
\<close>

record ucd =
  isspace :: "codepoint \<Rightarrow> bool"
  isupper :: "codepoint \<Rightarrow> bool"
  islower :: "codepoint \<Rightarrow> bool"
  istitle :: "codepoint \<Rightarrow> bool"
  isalpha :: "codepoint \<Rightarrow> bool"

text \<open>
  The facts about the database that the proofs below rely on: newline, space and tab are
  whitespace; \<^verbatim>\<open>#\<close> is neither whitespace nor a letter.
\<close>

definition ucd_basic :: "ucd \<Rightarrow> bool" where
  "ucd_basic db =
     (isspace db LF \<and> isspace db SPACE \<and> isspace db TAB \<and>
      \<not> isspace db HASH \<and> \<not> isalpha db HASH)"

text \<open>
  A concrete database for evaluating examples. It agrees with CPython on whitespace
  (the complete list of \<^verbatim>\<open>_PyUnicode_IsWhitespace\<close>), on the ASCII letters and on
  U+4E2D (a CJK ideograph: a letter without case). Every other code point is left
  without case and not a letter, so it is only used on strings of these characters.
\<close>

definition ucd_sample :: ucd where
  "ucd_sample =
     \<lparr> isspace = (\<lambda>c. c \<in> set [9, 10, 11, 12, 13, 28, 29, 30, 31, 32, 133, 160, 5760,
                                 8192, 8193, 8194, 8195, 8196, 8197, 8198, 8199, 8200,
                                 8201, 8202, 8232, 8233, 8239, 8287, 12288]),
       isupper = (\<lambda>c. 65 \<le> c \<and> c \<le> 90),
       islower = (\<lambda>c. 97 \<le> c \<and> c \<le> 122),
       istitle = (\<lambda>c. False),
       isalpha = (\<lambda>c. (65 \<le> c \<and> c \<le> 90) \<or> (97 \<le> c \<and> c \<le> 122) \<or> c = 20013) \<rparr>"

subsection \<open>The string methods the script calls\<close>

text \<open>\<^verbatim>\<open>s.strip()\<close>: drop the whitespace at both ends.\<close>

definition lstrip :: "ucd \<Rightarrow> pystr \<Rightarrow> pystr" where
  "lstrip db s = dropWhile (isspace db) s"

definition rstrip :: "ucd \<Rightarrow> pystr \<Rightarrow> pystr" where
  "rstrip db s = rev (dropWhile (isspace db) (rev s))"

definition strip :: "ucd \<Rightarrow> pystr \<Rightarrow> pystr" where
  "strip db s = rstrip db (lstrip db s)"

text \<open>\<^verbatim>\<open>s.rstrip("\n")\<close>: drop every newline at the end.\<close>

definition rstrip_nl :: "pystr \<Rightarrow> pystr" where
  "rstrip_nl s = rev (dropWhile (\<lambda>c. c = LF) (rev s))"

text \<open>\<^verbatim>\<open>s.startswith(p)\<close>.\<close>

definition startswith :: "pystr \<Rightarrow> pystr \<Rightarrow> bool" where
  "startswith s p = (take (length p) s = p)"

text \<open>
  \<^verbatim>\<open>s.isupper()\<close> as CPython computes it: a string of one character is upper when the
  character is; otherwise no character may be lowercase or titlecase and at least one
  must be uppercase (so the empty string is not upper).
\<close>

fun str_isupper :: "ucd \<Rightarrow> pystr \<Rightarrow> bool" where
  "str_isupper db [c] = isupper db c"
| "str_isupper db s =
     (list_all (\<lambda>c. \<not> islower db c \<and> \<not> istitle db c) s \<and> list_ex (isupper db) s)"

text \<open>\<^verbatim>\<open>"\n".join(xs)\<close>.\<close>

fun join :: "pystr list \<Rightarrow> pystr" where
  "join [] = []"
| "join [x] = x"
| "join (x # y # ys) = x @ LF # join (y # ys)"

subsection \<open>Reading a text file\<close>

text \<open>
  \<^verbatim>\<open>open(path, "r", encoding="utf-8")\<close> reads in universal-newlines mode: \<^verbatim>\<open>\r\n\<close> and a
  lone \<^verbatim>\<open>\r\<close> arrive as \<^verbatim>\<open>\n\<close>. A file's content is modelled as its decoded text.
\<close>

fun universal_newlines :: "pystr \<Rightarrow> pystr" where
  "universal_newlines [] = []"
| "universal_newlines [c] = (if c = CR then [LF] else [c])"
| "universal_newlines (c # d # cs) =
     (if c = CR \<and> d = LF then LF # universal_newlines cs
      else if c = CR then LF # universal_newlines (d # cs)
      else c # universal_newlines (d # cs))"

text \<open>
  \<^verbatim>\<open>file.readlines()\<close>: the text cut after every newline, each line keeping its newline;
  a last line without newline is kept when it is not empty.
\<close>

fun readlines :: "pystr \<Rightarrow> pystr list" where
  "readlines [] = []"
| "readlines (c # cs) =
     (if c = LF then [LF] # readlines cs
      else (case readlines cs of
              [] \<Rightarrow> [[c]]
            | l # ls \<Rightarrow> (c # l) # ls))"

section \<open>The script\<close>

subsection \<open>\<^verbatim>\<open>is_title_line\<close>\<close>

definition is_title_line :: "ucd \<Rightarrow> pystr \<Rightarrow> bool" where
  "is_title_line db line =
     (let stripped = strip db line
      in str_isupper db stripped \<and> list_ex (isalpha db) stripped)"

subsection \<open>\<^verbatim>\<open>clean_fables\<close>: the loop\<close>

text \<open>
  \<^verbatim>\<open>previous_line_type\<close> is \<^verbatim>\<open>None\<close> or one of the strings \<^verbatim>\<open>"title"\<close>, \<^verbatim>\<open>"text"\<close>,
  \<^verbatim>\<open>"empty"\<close>. The loop's state is the pair of \<^verbatim>\<open>cleaned_lines\<close> and
  \<^verbatim>\<open>previous_line_type\<close>; \<^verbatim>\<open>process_line\<close> is one pass through the loop body.
\<close>

datatype line_type = Title | Text | Empty

type_synonym loop_state = "pystr list \<times> line_type option"

definition process_line :: "ucd \<Rightarrow> loop_state \<Rightarrow> pystr \<Rightarrow> loop_state" where
  "process_line db st line =
     (case st of (cleaned_lines, previous_line_type) \<Rightarrow>
        let stripped = rstrip_nl line in
        if startswith stripped [SPACE] \<or> startswith stripped [TAB] then
          (cleaned_lines, previous_line_type)
        else if is_title_line db stripped then
          ((if cleaned_lines = [] \<or> last cleaned_lines \<noteq> DELIM
            then cleaned_lines @ [DELIM] else cleaned_lines) @ [stripped],
           Some Title)
        else if strip db stripped = [] then
          (if (previous_line_type = Some Title \<or> previous_line_type = Some Text) \<and>
              (cleaned_lines = [] \<or> last cleaned_lines \<noteq> [])
           then cleaned_lines @ [[]] else cleaned_lines,
           Some Empty)
        else
          (cleaned_lines @ [stripped], Some Text))"

definition clean_loop :: "ucd \<Rightarrow> pystr list \<Rightarrow> loop_state" where
  "clean_loop db lines = foldl (process_line db) ([], None) lines"

definition clean_lines :: "ucd \<Rightarrow> pystr list \<Rightarrow> pystr list" where
  "clean_lines db lines = fst (clean_loop db lines)"

text \<open>\<^verbatim>\<open>final_text = "\n".join(cleaned_lines).strip() + "\n"\<close>.\<close>

definition final_text :: "ucd \<Rightarrow> pystr list \<Rightarrow> pystr" where
  "final_text db cleaned_lines = strip db (join cleaned_lines) @ [LF]"

text \<open>From the text read to the text written.\<close>

definition clean_text :: "ucd \<Rightarrow> pystr \<Rightarrow> pystr" where
  "clean_text db text =
     final_text db (clean_lines db (readlines (universal_newlines text)))"

subsection \<open>\<^verbatim>\<open>clean_fables\<close>: the file system\<close>

text \<open>
  A path names a regular file (with its decoded text), a directory, or nothing.
  \<^verbatim>\<open>os.path.exists\<close> holds of files and directories; opening a directory raises. The
  output is written with \<^verbatim>\<open>\n\<close> as the line separator (POSIX), and the notice is printed
  last. Faults of the operating system other than these (permissions, undecodable
  bytes, a full disk) are outside the model.
\<close>

text \<open>The completion notice that the script prints.\<close>

definition notice :: "pystr \<Rightarrow> pystr" where
  "notice file_path = py ''Finished cleaning. File overwritten at '' @ file_path"

datatype node = File pystr | Directory

datatype error = FileNotFoundError | IsADirectoryError

record world =
  files :: "pystr \<rightharpoonup> node"
  stdout :: "pystr list"

definition clean_fables :: "ucd \<Rightarrow> pystr \<Rightarrow> world \<Rightarrow> error option \<times> world" where
  "clean_fables db file_path w =
     (case files w file_path of
        None \<Rightarrow> (Some FileNotFoundError, w)
      | Some Directory \<Rightarrow> (Some IsADirectoryError, w)
      | Some (File text) \<Rightarrow>
          (None,
           w\<lparr> files := (files w)(file_path \<mapsto> File (clean_text db text)),
              stdout := stdout w @ [notice file_path] \<rparr>))"

text \<open>
  The line sequence of a text file, as the loop sees it: read in universal-newlines
  mode, cut into lines, each without its newline.
\<close>

definition file_lines :: "pystr \<Rightarrow> pystr list" where
  "file_lines text = map rstrip_nl (readlines (universal_newlines text))"

section \<open>Line categories and the canonical structure\<close>

text \<open>The commentary test of the loop: the line starts with a space or a tab.\<close>

definition indented :: "pystr \<Rightarrow> bool" where
  "indented s = (startswith s [SPACE] \<or> startswith s [TAB])"

text \<open>
  The structure of the cleaned sequence, given the line \<open>l\<close> emitted before it (if
  any): no line holds a line break or is indented, a title line follows a delimiter
  line, and a whitespace-only line is the empty string, is not the first line and does
  not follow another empty line.
\<close>

fun canon :: "ucd \<Rightarrow> pystr option \<Rightarrow> pystr list \<Rightarrow> bool" where
  "canon db l [] = True"
| "canon db l (x # xs) =
     (LF \<notin> set x \<and> CR \<notin> set x \<and> \<not> indented x \<and>
      (is_title_line db x \<longrightarrow> l = Some DELIM) \<and>
      (strip db x = [] \<longrightarrow> x = [] \<and> l \<noteq> None \<and> l \<noteq> Some []) \<and>
      canon db (Some x) xs)"

text \<open>
  Delimiter placement in a line sequence: every line equal to the delimiter token is
  immediately followed by a title line (so the last line is not the token).
\<close>

definition delims_followed :: "ucd \<Rightarrow> pystr list \<Rightarrow> bool" where
  "delims_followed db xs =
     (successively (\<lambda>a b. a = DELIM \<longrightarrow> is_title_line db b) xs \<and>
      (xs \<noteq> [] \<longrightarrow> last xs \<noteq> DELIM))"

text \<open>
  The first and the last line that is not whitespace-only are not the delimiter token
  with extra whitespace around it: when one of them trims to the token, it is the
  token.
\<close>

definition ends_exact :: "ucd \<Rightarrow> pystr list \<Rightarrow> bool" where
  "ends_exact db xs =
     (let N = filter (\<lambda>x. strip db x \<noteq> []) xs
      in N \<noteq> [] \<longrightarrow>
           (strip db (hd N) = DELIM \<longrightarrow> hd N = DELIM) \<and>
           (strip db (last N) = DELIM \<longrightarrow> last N = DELIM))"

text \<open>
  The loop invariant that ties \<^verbatim>\<open>previous_line_type\<close> to \<^verbatim>\<open>cleaned_lines\<close>: the previous
  line type is title or text exactly when something was emitted and the last emitted
  line is not the empty string.
\<close>

definition loop_inv :: "loop_state \<Rightarrow> bool" where
  "loop_inv st =
     (case st of (cleaned_lines, previous_line_type) \<Rightarrow>
        (previous_line_type = Some Title \<or> previous_line_type = Some Text) =
        (cleaned_lines \<noteq> [] \<and> last cleaned_lines \<noteq> []))"

section \<open>Notions the properties are stated with\<close>

text \<open>The line sequence of the file that a run writes for the text it read.\<close>

definition output_lines :: "ucd \<Rightarrow> pystr \<Rightarrow> pystr list" where
  "output_lines db text = file_lines (clean_text db text)"

text \<open>The lines of the input that the loop does not discard as commentary.\<close>

definition uncommented_lines :: "pystr \<Rightarrow> pystr list" where
  "uncommented_lines text = filter (\<lambda>l. \<not> indented l) (file_lines text)"

text \<open>
  The title rule in the words of the specification: after trimming, every alphabetic
  character is uppercase and there is at least one alphabetic character.
\<close>

definition spec_is_title :: "ucd \<Rightarrow> pystr \<Rightarrow> bool" where
  "spec_is_title db line =
     (let stripped = strip db line
      in list_all (\<lambda>c. isalpha db c \<longrightarrow> isupper db c) stripped \<and>
         list_ex (isalpha db) stripped)"

text \<open>
  Strings in which letters and cased characters go together: every letter is
  uppercase, lowercase or titlecase, every lowercase or titlecase character is a letter,
  and no character is uppercase and lowercase or titlecase at once. Every string of
  ASCII characters is of this kind.
\<close>

definition letters_cased :: "ucd \<Rightarrow> pystr \<Rightarrow> bool" where
  "letters_cased db s =
     list_all (\<lambda>c. (isalpha db c \<longrightarrow> isupper db c \<or> islower db c \<or> istitle db c) \<and>
                    (islower db c \<or> istitle db c \<longrightarrow> isalpha db c) \<and>
                    \<not> (isupper db c \<and> (islower db c \<or> istitle db c))) s"

text \<open>The first example scenario of the specification: the input and the expected output.\<close>

definition example_input :: pystr where
  "example_input = py ''THE FOX AND THE GRAPES\<newline>\<newline>  (a note about origin)\<newline>A hungry fox saw some grapes.\<newline>\<newline>THE ANT AND THE GRASSHOPPER\<newline>Winter came.\<newline>''"

definition example_output :: pystr where
  "example_output = py ''###\<newline>THE FOX AND THE GRAPES\<newline>\<newline>A hungry fox saw some grapes.\<newline>\<newline>###\<newline>THE ANT AND THE GRASSHOPPER\<newline>Winter came.\<newline>''"


section \<open>Lemmas about the string methods\<close>

subsection \<open>Stripping whitespace\<close>

lemma lstrip_Nil [simp]: "lstrip db [] = []"
  by (simp add: lstrip_def)

lemma rstrip_Nil [simp]: "rstrip db [] = []"
  by (simp add: rstrip_def)

lemma strip_Nil [simp]: "strip db [] = []"
  by (simp add: strip_def)

lemma rstrip_Cons:
  "rstrip db (c # s) =
     (if isspace db c \<and> (\<forall>x\<in>set s. isspace db x) then [] else c # rstrip db s)"
  by (auto simp: rstrip_def dropWhile_append)

lemma rstrip_snoc:
  "rstrip db (s @ [c]) = (if isspace db c then rstrip db s else s @ [c])"
  by (simp add: rstrip_def)

lemma lstrip_eq_Nil_iff: "lstrip db s = [] \<longleftrightarrow> (\<forall>c\<in>set s. isspace db c)"
  by (simp add: lstrip_def dropWhile_eq_Nil_conv)

lemma rstrip_eq_Nil_iff: "rstrip db s = [] \<longleftrightarrow> (\<forall>c\<in>set s. isspace db c)"
  by (simp add: rstrip_def dropWhile_eq_Nil_conv)

lemma set_lstrip: "set (lstrip db s) \<subseteq> set s"
  by (simp add: lstrip_def set_dropWhileD subsetI)

lemma set_rstrip: "set (rstrip db s) \<subseteq> set s"
  by (metis rstrip_def set_dropWhileD set_rev subsetI)

lemma set_strip: "set (strip db s) \<subseteq> set s"
  unfolding strip_def using set_lstrip set_rstrip by blast

lemma lstrip_rstrip_commute: "lstrip db (rstrip db s) = rstrip db (lstrip db s)"
proof (induction s)
  case Nil
  then show ?case by simp
next
  case (Cons c s)
  show ?case
  proof (cases "isspace db c")
    case True
    show ?thesis
    proof (cases "\<forall>x\<in>set s. isspace db x")
      case all: True
      then have dw: "dropWhile (isspace db) s = []" by simp
      from True all show ?thesis by (simp add: rstrip_Cons lstrip_def dw)
    next
      case False
      with True Cons show ?thesis by (auto simp: rstrip_Cons lstrip_def)
    qed
  next
    case False
    then show ?thesis by (simp add: rstrip_Cons lstrip_def)
  qed
qed

lemma lstrip_idem [simp]: "lstrip db (lstrip db s) = lstrip db s"
  by (simp add: lstrip_def dropWhile_idem)

lemma rstrip_idem [simp]: "rstrip db (rstrip db s) = rstrip db s"
  by (simp add: rstrip_def dropWhile_idem)

lemma strip_lstrip [simp]: "strip db (lstrip db s) = strip db s"
  by (simp add: strip_def)

lemma strip_rstrip [simp]: "strip db (rstrip db s) = strip db s"
  by (simp add: strip_def lstrip_rstrip_commute)

lemma strip_idem [simp]: "strip db (strip db s) = strip db s"
  by (simp add: strip_def lstrip_rstrip_commute)

lemma strip_eq_Nil_iff: "strip db s = [] \<longleftrightarrow> (\<forall>c\<in>set s. isspace db c)"
  by (metis lstrip_eq_Nil_iff rstrip_eq_Nil_iff lstrip_rstrip_commute strip_def lstrip_idem)

lemma lstrip_append:
  "\<exists>c\<in>set s. \<not> isspace db c \<Longrightarrow> lstrip db (s @ t) = lstrip db s @ t"
  by (auto simp: lstrip_def dropWhile_append)

lemma rstrip_append:
  "\<exists>c\<in>set t. \<not> isspace db c \<Longrightarrow> rstrip db (s @ t) = s @ rstrip db t"
  by (auto simp: rstrip_def dropWhile_append)

lemma lstrip_not_space: "lstrip db s = c # r \<Longrightarrow> \<not> isspace db c"
  by (metis lstrip_def hd_dropWhile list.sel(1) list.distinct(1))

lemma rstrip_not_space: "rstrip db s = r @ [c] \<Longrightarrow> \<not> isspace db c"
  by (metis rstrip_def hd_dropWhile rev_eq_Cons_iff rev_rev_ident list.sel(1) list.distinct(1) rev.simps(2) rev_swap)

lemma strip_hd_not_space: "strip db s = c # r \<Longrightarrow> \<not> isspace db c"
  by (metis lstrip_not_space lstrip_rstrip_commute strip_def)

lemma strip_last_not_space: "strip db s = r @ [c] \<Longrightarrow> \<not> isspace db c"
  by (metis rstrip_not_space strip_def)

lemma nonblank_has_nonspace: "strip db s \<noteq> [] \<Longrightarrow> \<exists>c\<in>set s. \<not> isspace db c"
  by (simp add: strip_eq_Nil_iff)

lemma lstrip_nonblank: "strip db s \<noteq> [] \<Longrightarrow> lstrip db s \<noteq> []"
  by (metis strip_def rstrip_Nil)

lemma rstrip_nonblank: "strip db s \<noteq> [] \<Longrightarrow> rstrip db s \<noteq> []"
  by (metis strip_rstrip strip_def lstrip_Nil rstrip_Nil strip_Nil)


subsection \<open>Newlines, lines and joining\<close>

lemma rstrip_nl_snoc_LF [simp]: "rstrip_nl (x @ [LF]) = rstrip_nl x"
  by (simp add: rstrip_nl_def)

lemma rstrip_nl_LF [simp]: "rstrip_nl [LF] = []"
  by (simp add: rstrip_nl_def)

lemma rstrip_nl_Nil [simp]: "rstrip_nl [] = []"
  by (simp add: rstrip_nl_def)

lemma rstrip_nl_id: "LF \<notin> set x \<Longrightarrow> rstrip_nl x = x"
proof (induction x rule: rev_induct)
  case Nil
  then show ?case by (simp add: rstrip_nl_def)
next
  case (snoc c x)
  then show ?case by (simp add: rstrip_nl_def)
qed

lemma set_rstrip_nl: "set (rstrip_nl x) \<subseteq> set x"
  by (metis rstrip_nl_def set_dropWhileD set_rev subsetI)

lemma strip_rstrip_nl: "isspace db LF \<Longrightarrow> strip db (rstrip_nl s) = strip db s"
proof (induction s rule: rev_induct)
  case Nil
  then show ?case by simp
next
  case (snoc c s)
  show ?case
  proof (cases "c = LF")
    case True
    have "strip db (s @ [LF]) = strip db s"
      using snoc.prems by (simp add: strip_def lstrip_rstrip_commute[symmetric] rstrip_snoc)
    with True snoc show ?thesis by simp
  next
    case False
    then show ?thesis by (simp add: rstrip_nl_def)
  qed
qed

lemma universal_newlines_no_CR: "CR \<notin> set (universal_newlines t)"
  by (induction t rule: universal_newlines.induct) auto

lemma universal_newlines_id: "CR \<notin> set t \<Longrightarrow> universal_newlines t = t"
  by (induction t rule: universal_newlines.induct) auto

lemma set_universal_newlines: "set (universal_newlines t) \<subseteq> insert LF (set t)"
  by (induction t rule: universal_newlines.induct) auto

lemma readlines_line:
  "l \<in> set (readlines t) \<Longrightarrow> LF \<notin> set (rstrip_nl l) \<and> set l \<subseteq> set t"
proof (induction t arbitrary: l)
  case Nil
  then show ?case by simp
next
  case (Cons c t)
  show ?case
  proof (cases "c = LF")
    case True
    with Cons show ?thesis by (auto simp: rstrip_nl_def)
  next
    case False
    show ?thesis
    proof (cases "readlines t")
      case Nil
      with False Cons.prems show ?thesis by (auto simp: rstrip_nl_def)
    next
      case (Cons k ks)
      with False Cons.prems Cons.IH[of k] Cons.IH[of l] show ?thesis
        apply (auto simp: rstrip_nl_def dropWhile_append split: if_splits)
        done
    qed
  qed
qed

lemma readlines_line_LF:
  "LF \<notin> set x \<Longrightarrow> readlines (x @ LF # t) = (x @ [LF]) # readlines t"
  by (induction x) auto

lemma readlines_join:
  "xs \<noteq> [] \<Longrightarrow> \<forall>x\<in>set xs. LF \<notin> set x \<Longrightarrow>
   readlines (join xs @ [LF]) = map (\<lambda>x. x @ [LF]) xs"
proof (induction xs rule: join.induct)
  case 1
  then show ?case by simp
next
  case (2 x)
  then show ?case using readlines_line_LF[of x "[]"] by simp
next
  case (3 x y ys)
  then show ?case using readlines_line_LF[of x "join (y # ys) @ [LF]"] by simp
qed

lemma set_join: "set (join xs) \<subseteq> insert LF (\<Union>x\<in>set xs. set x)"
  by (induction xs rule: join.induct) auto

lemma join_snoc: "xs \<noteq> [] \<Longrightarrow> join (xs @ [y]) = join xs @ LF # y"
  by (induction xs rule: join.induct) auto

lemma join_Cons: "xs \<noteq> [] \<Longrightarrow> join (x # xs) = x @ LF # join xs"
  by (cases xs) auto

lemma input_lines_ok:
  "line \<in> set (readlines (universal_newlines t)) \<Longrightarrow>
     LF \<notin> set (rstrip_nl line) \<and> CR \<notin> set line"
  using readlines_line[of line "universal_newlines t"] universal_newlines_no_CR[of t]
  by auto


subsection \<open>Titles, indentation and the delimiter\<close>

lemma is_title_line_strip [simp]: "is_title_line db (strip db s) = is_title_line db s"
  by (simp add: is_title_line_def)

lemma is_title_line_lstrip [simp]: "is_title_line db (lstrip db s) = is_title_line db s"
  by (simp add: is_title_line_def)

lemma is_title_line_rstrip [simp]: "is_title_line db (rstrip db s) = is_title_line db s"
  by (simp add: is_title_line_def)

lemma title_not_blank: "is_title_line db s \<Longrightarrow> strip db s \<noteq> []"
  by (auto simp: is_title_line_def)

lemma not_title_Nil [simp]: "\<not> is_title_line db []"
  by (simp add: is_title_line_def)

lemma str_isupper_long:
  "length s \<noteq> 1 \<Longrightarrow>
   str_isupper db s =
     (list_all (\<lambda>c. \<not> islower db c \<and> \<not> istitle db c) s \<and> list_ex (isupper db) s)"
proof (cases s)
  case Nil
  then show ?thesis by simp
next
  case (Cons c r)
  assume "length s \<noteq> 1"
  with Cons obtain d r' where "r = d # r'" by (cases r) auto
  with Cons show ?thesis by simp
qed

lemma cased_letters_rule:
  assumes "letters_cased db t"
  shows "(list_all (\<lambda>c. \<not> islower db c \<and> \<not> istitle db c) t \<and> list_ex (isupper db) t \<and>
          list_ex (isalpha db) t) =
         (list_all (\<lambda>c. isalpha db c \<longrightarrow> isupper db c) t \<and> list_ex (isalpha db) t)"
  using assms unfolding letters_cased_def list_all_iff list_ex_iff by blast

lemma indented_iff: "indented s \<longleftrightarrow> (\<exists>r. s = SPACE # r \<or> s = TAB # r)"
  by (cases s) (auto simp: indented_def startswith_def)

lemma indented_Nil [simp]: "\<not> indented []"
  by (simp add: indented_iff)

lemma indented_Cons [simp]: "indented (c # r) \<longleftrightarrow> c = SPACE \<or> c = TAB"
  by (auto simp: indented_iff)

lemma not_indented_lstrip:
  assumes "ucd_basic db" shows "\<not> indented (lstrip db s)"
proof (cases "lstrip db s")
  case Nil
  then show ?thesis by simp
next
  case (Cons c r)
  with lstrip_not_space[OF Cons] assms show ?thesis
    by (auto simp: ucd_basic_def)
qed

lemma indented_rstrip: "indented (rstrip db s) \<Longrightarrow> indented s"
  by (cases s) (auto simp: rstrip_Cons split: if_splits)

lemma strip_DELIM: "ucd_basic db \<Longrightarrow> strip db DELIM = DELIM"
  by (simp add: ucd_basic_def strip_def lstrip_def rstrip_def)

lemma lstrip_DELIM: "ucd_basic db \<Longrightarrow> lstrip db DELIM = DELIM"
  by (simp add: ucd_basic_def lstrip_def)

lemma not_title_DELIM: "ucd_basic db \<Longrightarrow> \<not> is_title_line db DELIM"
  by (simp add: is_title_line_def strip_DELIM) (simp add: ucd_basic_def)

lemma title_not_DELIM:
  "ucd_basic db \<Longrightarrow> is_title_line db x \<Longrightarrow> strip db x \<noteq> DELIM"
  by (metis is_title_line_strip not_title_DELIM)


section \<open>The loop keeps the canonical structure\<close>

text \<open>The loop body with the commentary test folded into \<^const>\<open>indented\<close>.\<close>

lemma process_line_eq:
  "process_line db (acc, prev) line =
     (let s = rstrip_nl line in
      if indented s then (acc, prev)
      else if is_title_line db s then
        ((if acc = [] \<or> last acc \<noteq> DELIM then acc @ [DELIM] else acc) @ [s], Some Title)
      else if strip db s = [] then
        (if (prev = Some Title \<or> prev = Some Text) \<and> (acc = [] \<or> last acc \<noteq> [])
         then acc @ [[]] else acc, Some Empty)
      else (acc @ [s], Some Text))"
  by (simp add: process_line_def indented_def Let_def)

lemma canon_append:
  "canon db l (xs @ ys) =
     (canon db l xs \<and> canon db (if xs = [] then l else Some (last xs)) ys)"
  by (induction xs arbitrary: l) auto

lemma canon_set:
  "canon db l xs \<Longrightarrow> x \<in> set xs \<Longrightarrow> LF \<notin> set x \<and> CR \<notin> set x \<and> \<not> indented x"
  by (induction xs arbitrary: l) auto

lemma canon_prev_change:
  "canon db (Some a) xs \<Longrightarrow> (a = DELIM \<longrightarrow> b = DELIM) \<Longrightarrow> (a \<noteq> [] \<longrightarrow> b \<noteq> []) \<Longrightarrow>
   canon db (Some b) xs"
  by (cases xs) auto

lemma canon_nth_title:
  "canon db l xs \<Longrightarrow> i < length xs \<Longrightarrow> is_title_line db (xs ! i) \<Longrightarrow>
   (if i = 0 then l = Some DELIM else xs ! (i - 1) = DELIM)"
proof (induction xs arbitrary: l i)
  case Nil
  then show ?case by simp
next
  case (Cons x xs)
  show ?case
  proof (cases i)
    case 0
    with Cons.prems show ?thesis by simp
  next
    case (Suc j)
    with Cons.prems Cons.IH[of "Some x" j] show ?thesis
      by (cases j) auto
  qed
qed

lemma canon_nth_blank:
  "canon db l xs \<Longrightarrow> Suc i < length xs \<Longrightarrow> strip db (xs ! i) = [] \<Longrightarrow>
   strip db (xs ! Suc i) \<noteq> []"
proof (induction xs arbitrary: l i)
  case Nil
  then show ?case by simp
next
  case (Cons x xs)
  show ?case
  proof (cases i)
    case 0
    with Cons.prems show ?thesis by (cases xs) auto
  next
    case (Suc j)
    with Cons.prems Cons.IH[of "Some x" j] show ?thesis by simp
  qed
qed

lemma process_line_canon:
  assumes db: "ucd_basic db"
    and acc: "canon db None acc" and inv: "loop_inv (acc, prev)"
    and line: "LF \<notin> set (rstrip_nl line)" "CR \<notin> set line"
    and res: "process_line db (acc, prev) line = (acc', prev')"
  shows "canon db None acc' \<and> loop_inv (acc', prev')"
proof -
  define s where "s = rstrip_nl line"
  have s: "LF \<notin> set s" "CR \<notin> set s"
    using line set_rstrip_nl[of line] by (auto simp: s_def)
  have res': "(acc', prev') =
     (if indented s then (acc, prev)
      else if is_title_line db s then
        ((if acc = [] \<or> last acc \<noteq> DELIM then acc @ [DELIM] else acc) @ [s], Some Title)
      else if strip db s = [] then
        (if (prev = Some Title \<or> prev = Some Text) \<and> (acc = [] \<or> last acc \<noteq> [])
         then acc @ [[]] else acc, Some Empty)
      else (acc @ [s], Some Text))"
    unfolding res[symmetric] by (simp only: process_line_eq Let_def s_def)
  consider (comment) "indented s"
    | (title) "\<not> indented s" "is_title_line db s"
    | (blank) "\<not> indented s" "\<not> is_title_line db s" "strip db s = []"
    | (body) "\<not> indented s" "\<not> is_title_line db s" "strip db s \<noteq> []"
    by blast
  then show ?thesis
  proof cases
    case comment
    with res' acc inv show ?thesis by simp
  next
    case title
    then have ne: "strip db s \<noteq> []" "s \<noteq> []"
      using title_not_blank by auto
    show ?thesis
    proof (cases "acc = [] \<or> last acc \<noteq> DELIM")
      case True
      with res' title have eq: "acc' = acc @ [DELIM, s]" "prev' = Some Title" by auto
      show ?thesis
        using acc s title ne db
        by (auto simp: eq canon_append loop_inv_def strip_DELIM not_title_DELIM)
    next
      case False
      with res' title have eq: "acc' = acc @ [s]" "prev' = Some Title" by auto
      show ?thesis
        using acc s title ne False
        by (auto simp: eq canon_append loop_inv_def)
    qed
  next
    case blank
    show ?thesis
    proof (cases "(prev = Some Title \<or> prev = Some Text) \<and> (acc = [] \<or> last acc \<noteq> [])")
      case True
      with res' blank have eq: "acc' = acc @ [[]]" "prev' = Some Empty" by auto
      from True inv have "acc \<noteq> []" "last acc \<noteq> []" by (auto simp: loop_inv_def)
      then show ?thesis
        using acc by (auto simp: eq canon_append loop_inv_def)
    next
      case False
      with res' blank have eq: "acc' = acc" "prev' = Some Empty" by auto
      from False inv have "acc = [] \<or> last acc = []" by (auto simp: loop_inv_def)
      then show ?thesis
        using acc by (auto simp: eq loop_inv_def)
    qed
  next
    case body
    with res' have eq: "acc' = acc @ [s]" "prev' = Some Text" by auto
    from body have "s \<noteq> []" by auto
    then show ?thesis
      using acc s body by (auto simp: eq canon_append loop_inv_def)
  qed
qed

lemma foldl_process_line_canon:
  assumes db: "ucd_basic db"
  shows "canon db None acc \<Longrightarrow> loop_inv (acc, prev) \<Longrightarrow>
    \<forall>line\<in>set ls. LF \<notin> set (rstrip_nl line) \<and> CR \<notin> set line \<Longrightarrow>
    foldl (process_line db) (acc, prev) ls = (acc', prev') \<Longrightarrow>
    canon db None acc' \<and> loop_inv (acc', prev')"
proof (induction ls arbitrary: acc prev)
  case Nil
  then show ?case by simp
next
  case (Cons line ls)
  obtain a p where step: "process_line db (acc, prev) line = (a, p)"
    by (cases "process_line db (acc, prev) line")
  have "canon db None a \<and> loop_inv (a, p)"
    using process_line_canon[OF db Cons.prems(1,2) _ _ step] Cons.prems(3) by simp
  moreover have "foldl (process_line db) (a, p) ls = (acc', prev')"
    using Cons.prems(4) step by simp
  ultimately show ?case
    using Cons.IH[of a p] Cons.prems(3) by simp
qed

lemma clean_lines_canon:
  assumes "ucd_basic db"
  shows "canon db None (clean_lines db (readlines (universal_newlines t)))"
proof -
  obtain a p where r: "clean_loop db (readlines (universal_newlines t)) = (a, p)"
    by (cases "clean_loop db (readlines (universal_newlines t))")
  have "canon db None a \<and> loop_inv (a, p)"
    using foldl_process_line_canon[OF assms, of "[]" None "readlines (universal_newlines t)" a p]
      r input_lines_ok[of _ t]
    by (simp add: clean_loop_def loop_inv_def)
  then show ?thesis by (simp add: clean_lines_def r)
qed


subsection \<open>The loop on the lines that are not commentary\<close>

lemma rstrip_nl_idem: "rstrip_nl (rstrip_nl l) = rstrip_nl l"
  by (simp add: rstrip_nl_def dropWhile_idem)

lemma process_line_rstrip_nl: "process_line db st (rstrip_nl l) = process_line db st l"
  by (cases st) (simp add: process_line_eq rstrip_nl_idem)

lemma process_line_indented: "indented (rstrip_nl l) \<Longrightarrow> process_line db st l = st"
  by (cases st) (simp add: process_line_eq)

lemma foldl_process_line_uncommented:
  "foldl (process_line db) st ls =
   foldl (process_line db) st (filter (\<lambda>l. \<not> indented l) (map rstrip_nl ls))"
  by (induction ls arbitrary: st)
    (simp_all add: process_line_rstrip_nl process_line_indented)

lemma clean_lines_uncommented:
  "clean_lines db (readlines (universal_newlines text)) =
   fst (foldl (process_line db) ([], None) (uncommented_lines text))"
  using foldl_process_line_uncommented[of db "([], None)" "readlines (universal_newlines text)"]
  by (simp add: clean_lines_def clean_loop_def uncommented_lines_def file_lines_def)

lemma uncommented_line:
  "y \<in> set (uncommented_lines text) \<Longrightarrow> \<not> indented y \<and> rstrip_nl y = y"
  by (auto simp: uncommented_lines_def file_lines_def rstrip_nl_idem)

text \<open>The loop body on a line that is not commentary and has no newline left.\<close>

lemma process_line_plain:
  assumes "\<not> indented y" and "rstrip_nl y = y"
  shows "process_line db (acc, prev) y =
     (if is_title_line db y then
        ((if acc = [] \<or> last acc \<noteq> DELIM then acc @ [DELIM] else acc) @ [y], Some Title)
      else if strip db y = [] then
        (if (prev = Some Title \<or> prev = Some Text) \<and> (acc = [] \<or> last acc \<noteq> [])
         then acc @ [[]] else acc, Some Empty)
      else (acc @ [y], Some Text))"
  using assms by (simp add: process_line_eq Let_def)

subsection \<open>Delimiter placement is kept by the loop\<close>

lemma delims_followed_Nil [simp]: "delims_followed db []"
  by (simp add: delims_followed_def)

lemma delims_followed_Cons:
  "delims_followed db (y # Y) =
     ((y = DELIM \<longrightarrow> Y \<noteq> [] \<and> is_title_line db (hd Y)) \<and> delims_followed db Y)"
  by (cases Y) (auto simp: delims_followed_def)

lemma delims_followed_snoc:
  "delims_followed db (E @ [d]) =
     (successively (\<lambda>a b. a = DELIM \<longrightarrow> is_title_line db b) E \<and>
      (E \<noteq> [] \<and> last E = DELIM \<longrightarrow> is_title_line db d) \<and> d \<noteq> DELIM)"
  by (auto simp: delims_followed_def successively_append_iff)

lemma delims_followed_nth_iff:
  "delims_followed db xs \<longleftrightarrow>
     (\<forall>i<length xs. xs ! i = DELIM \<longrightarrow> Suc i < length xs \<and> is_title_line db (xs ! Suc i))"
proof (induction xs)
  case Nil
  then show ?case by simp
next
  case (Cons x xs)
  have "(\<forall>i<length (x # xs). (x # xs) ! i = DELIM \<longrightarrow>
           Suc i < length (x # xs) \<and> is_title_line db ((x # xs) ! Suc i)) \<longleftrightarrow>
        ((x = DELIM \<longrightarrow> xs \<noteq> [] \<and> is_title_line db (hd xs)) \<and>
         (\<forall>i<length xs. xs ! i = DELIM \<longrightarrow> Suc i < length xs \<and> is_title_line db (xs ! Suc i)))"
    (is "?A \<longleftrightarrow> ?B \<and> ?C")
  proof
    assume A: ?A
    have "?B" using A[rule_format, of 0] by (cases xs) auto
    moreover have "?C"
    proof (intro allI impI)
      fix i assume "i < length xs" "xs ! i = DELIM"
      with A[rule_format, of "Suc i"]
      show "Suc i < length xs \<and> is_title_line db (xs ! Suc i)" by simp
    qed
    ultimately show "?B \<and> ?C" ..
  next
    assume BC: "?B \<and> ?C"
    show ?A
    proof (intro allI impI)
      fix i assume i: "i < length (x # xs)" "(x # xs) ! i = DELIM"
      show "Suc i < length (x # xs) \<and> is_title_line db ((x # xs) ! Suc i)"
      proof (cases i)
        case 0
        with i BC show ?thesis by (cases xs) auto
      next
        case (Suc j)
        with i BC show ?thesis by simp
      qed
    qed
  qed
  with Cons show ?case by (simp add: delims_followed_Cons)
qed

lemma delims_followed_snoc_change:
  "delims_followed db (E @ [d]) \<Longrightarrow> d' \<noteq> DELIM \<Longrightarrow>
   is_title_line db d' = is_title_line db d \<Longrightarrow> delims_followed db (E @ [d'])"
  by (simp add: delims_followed_snoc)

lemma delims_followed_butlast:
  assumes f: "delims_followed db (E @ [d])" and nt: "\<not> is_title_line db d"
  shows "delims_followed db E"
proof -
  from f have "successively (\<lambda>a b. a = DELIM \<longrightarrow> is_title_line db b) E"
    and "E \<noteq> [] \<and> last E = DELIM \<longrightarrow> is_title_line db d"
    by (simp_all add: delims_followed_snoc)
  with nt show ?thesis by (auto simp: delims_followed_def)
qed

lemma successively_snoc:
  "successively P (xs @ [x]) = (successively P xs \<and> (xs = [] \<or> P (last xs) x))"
  by (simp add: successively_append_iff)

lemma foldl_process_line_followed:
  assumes db: "ucd_basic db"
  shows "\<forall>y\<in>set Y. \<not> indented y \<and> rstrip_nl y = y \<Longrightarrow> delims_followed db Y \<Longrightarrow>
    successively (\<lambda>a b. a = DELIM \<longrightarrow> is_title_line db b) acc \<Longrightarrow>
    (acc \<noteq> [] \<and> last acc = DELIM \<longrightarrow> Y \<noteq> [] \<and> is_title_line db (hd Y)) \<Longrightarrow>
    delims_followed db (fst (foldl (process_line db) (acc, prev) Y))"
proof (induction Y arbitrary: acc prev)
  case Nil
  then show ?case by (auto simp: delims_followed_def)
next
  case (Cons y Y)
  from Cons.prems(1) have y: "\<not> indented y" "rstrip_nl y = y" by auto
  from Cons.prems(2) have yY: "y = DELIM \<longrightarrow> Y \<noteq> [] \<and> is_title_line db (hd Y)"
    and Y: "delims_followed db Y" by (auto simp: delims_followed_Cons)
  from Cons.prems(4) have pend: "acc \<noteq> [] \<and> last acc = DELIM \<longrightarrow> is_title_line db y" by simp
  note nd = not_title_DELIM[OF db]
  obtain a p where step: "process_line db (acc, prev) y = (a, p)"
    by (cases "process_line db (acc, prev) y")
  have "successively (\<lambda>a b. a = DELIM \<longrightarrow> is_title_line db b) a \<and>
        (a \<noteq> [] \<and> last a = DELIM \<longrightarrow> Y \<noteq> [] \<and> is_title_line db (hd Y))"
  proof (cases "is_title_line db y")
    case True
    with nd have "y \<noteq> DELIM" by auto
    with True step Cons.prems(3) show ?thesis
      by (auto simp: process_line_plain[OF y] successively_snoc successively_append_iff
          split: if_splits)
  next
    case False
    with pend have l: "acc = [] \<or> last acc \<noteq> DELIM" by auto
    with False step Cons.prems(3) yY show ?thesis
      by (auto simp: process_line_plain[OF y] successively_snoc split: if_splits)
  qed
  with Cons.IH[of a p] Cons.prems(1) Y step show ?case by simp
qed

lemma clean_lines_followed:
  assumes "ucd_basic db" and "delims_followed db (uncommented_lines text)"
  shows "delims_followed db (clean_lines db (readlines (universal_newlines text)))"
  using foldl_process_line_followed[OF assms(1), of "uncommented_lines text" "[]" None]
    assms(2) uncommented_line[of _ "text"]
  by (simp add: clean_lines_uncommented)

text \<open>The first and the last line of the cleaned sequence that is not blank.\<close>

lemma foldl_process_line_ends:
  assumes db: "ucd_basic db"
  shows "\<forall>y\<in>set Y. \<not> indented y \<and> rstrip_nl y = y \<Longrightarrow>
    (filter (\<lambda>x. strip db x \<noteq> []) Y = [] \<longrightarrow>
       filter (\<lambda>x. strip db x \<noteq> []) (fst (foldl (process_line db) ([], None) Y)) = []) \<and>
    (filter (\<lambda>x. strip db x \<noteq> []) Y \<noteq> [] \<longrightarrow>
       filter (\<lambda>x. strip db x \<noteq> []) (fst (foldl (process_line db) ([], None) Y)) \<noteq> [] \<and>
       (hd (filter (\<lambda>x. strip db x \<noteq> []) (fst (foldl (process_line db) ([], None) Y))) = DELIM \<or>
        hd (filter (\<lambda>x. strip db x \<noteq> []) (fst (foldl (process_line db) ([], None) Y))) =
          hd (filter (\<lambda>x. strip db x \<noteq> []) Y)) \<and>
       last (filter (\<lambda>x. strip db x \<noteq> []) (fst (foldl (process_line db) ([], None) Y))) =
         last (filter (\<lambda>x. strip db x \<noteq> []) Y))"
proof (induction Y rule: rev_induct)
  case Nil
  then show ?case by simp
next
  case (snoc y Y)
  from snoc.prems have y: "\<not> indented y" "rstrip_nl y = y" by auto
  obtain C p where Cp: "foldl (process_line db) ([], None) Y = (C, p)"
    by (cases "foldl (process_line db) ([], None) Y")
  from snoc have IH:
    "filter (\<lambda>x. strip db x \<noteq> []) Y = [] \<longrightarrow> filter (\<lambda>x. strip db x \<noteq> []) C = []"
    "filter (\<lambda>x. strip db x \<noteq> []) Y \<noteq> [] \<longrightarrow>
       filter (\<lambda>x. strip db x \<noteq> []) C \<noteq> [] \<and>
       (hd (filter (\<lambda>x. strip db x \<noteq> []) C) = DELIM \<or>
        hd (filter (\<lambda>x. strip db x \<noteq> []) C) = hd (filter (\<lambda>x. strip db x \<noteq> []) Y)) \<and>
       last (filter (\<lambda>x. strip db x \<noteq> []) C) = last (filter (\<lambda>x. strip db x \<noteq> []) Y)"
    by (simp_all add: Cp)
  have nbD: "strip db DELIM \<noteq> []" using strip_DELIM[OF db] by simp
  show ?case
  proof (cases "strip db y = []")
    case True
    then have "\<not> is_title_line db y" using title_not_blank by auto
    with True IH show ?thesis
      by (simp add: Cp process_line_plain[OF y])
  next
    case False
    show ?thesis
    proof (cases "filter (\<lambda>x. strip db x \<noteq> []) Y = []")
      case e: True
      with IH False nbD show ?thesis
        by (simp add: Cp process_line_plain[OF y])
    next
      case ne: False
      with IH False nbD show ?thesis
        by (simp add: Cp process_line_plain[OF y])
    qed
  qed
qed

lemma clean_lines_ends_exact:
  assumes db: "ucd_basic db" and e: "ends_exact db (uncommented_lines text)"
  shows "ends_exact db (clean_lines db (readlines (universal_newlines text)))"
  using foldl_process_line_ends[OF db, of "uncommented_lines text"] e
    uncommented_line[of _ "text"]
  unfolding ends_exact_def Let_def clean_lines_uncommented
  by auto

subsection \<open>A title line of the input is in the cleaned sequence\<close>

lemma process_line_mono: "set (fst st) \<subseteq> set (fst (process_line db st l))"
  by (cases st) (auto simp: process_line_eq Let_def)

lemma foldl_process_line_mono: "set (fst st) \<subseteq> set (fst (foldl (process_line db) st ls))"
proof (induction ls arbitrary: st)
  case Nil
  then show ?case by simp
next
  case (Cons l ls)
  from process_line_mono[of st db l] Cons[of "process_line db st l"] show ?case by auto
qed

lemma foldl_process_line_title:
  "line \<in> set ls \<Longrightarrow> \<not> indented (rstrip_nl line) \<Longrightarrow> is_title_line db (rstrip_nl line) \<Longrightarrow>
   rstrip_nl line \<in> set (fst (foldl (process_line db) st ls))"
proof (induction ls arbitrary: st)
  case Nil
  then show ?case by simp
next
  case (Cons l ls)
  show ?case
  proof (cases "line = l")
    case True
    have "rstrip_nl line \<in> set (fst (process_line db st l))"
      using Cons.prems(2,3) True by (cases st) (auto simp: process_line_eq Let_def)
    with foldl_process_line_mono[of "process_line db st l" db ls] show ?thesis by auto
  next
    case False
    with Cons show ?thesis by simp
  qed
qed

lemma clean_lines_title:
  "line \<in> set (readlines (universal_newlines text)) \<Longrightarrow> \<not> indented (rstrip_nl line) \<Longrightarrow>
   is_title_line db (rstrip_nl line) \<Longrightarrow>
   rstrip_nl line \<in> set (clean_lines db (readlines (universal_newlines text)))"
  by (simp add: clean_lines_def clean_loop_def foldl_process_line_title)

subsection \<open>A canonical sequence passes through the loop unchanged\<close>

lemma process_line_fixed:
  assumes x: "canon db (if acc = [] then None else Some (last acc)) [x]"
    and inv: "loop_inv (acc, prev)"
  shows "\<exists>prev'. process_line db (acc, prev) (x @ [LF]) = (acc @ [x], prev') \<and>
           loop_inv (acc @ [x], prev')"
proof -
  from x have s: "rstrip_nl x = x" by (simp add: rstrip_nl_id)
  from x have ni: "\<not> indented x" by simp
  consider (title) "is_title_line db x"
    | (blank) "\<not> is_title_line db x" "strip db x = []"
    | (body) "\<not> is_title_line db x" "strip db x \<noteq> []"
    by blast
  then show ?thesis
  proof cases
    case title
    with x have "acc \<noteq> []" "last acc = DELIM" by (auto split: if_splits)
    moreover from title have "x \<noteq> []" using title_not_blank by auto
    ultimately show ?thesis
      using title ni by (simp add: process_line_eq Let_def s loop_inv_def)
  next
    case blank
    with x have "x = []" "acc \<noteq> []" "last acc \<noteq> []" by (auto split: if_splits)
    moreover from this inv have "prev = Some Title \<or> prev = Some Text"
      by (simp add: loop_inv_def)
    ultimately show ?thesis
      using blank ni by (auto simp: process_line_eq Let_def s loop_inv_def)
  next
    case body
    then have "x \<noteq> []" by auto
    then show ?thesis
      using body ni by (simp add: process_line_eq Let_def s loop_inv_def)
  qed
qed

lemma foldl_process_line_fixed:
  "canon db (if acc = [] then None else Some (last acc)) xs \<Longrightarrow> loop_inv (acc, prev) \<Longrightarrow>
   \<exists>prev'. foldl (process_line db) (acc, prev) (map (\<lambda>x. x @ [LF]) xs) = (acc @ xs, prev')"
proof (induction xs arbitrary: acc prev)
  case Nil
  then show ?case by simp
next
  case (Cons x xs)
  from Cons.prems(1) have "canon db (if acc = [] then None else Some (last acc)) [x]"
    by simp
  from process_line_fixed[OF this Cons.prems(2)]
  obtain p where p: "process_line db (acc, prev) (x @ [LF]) = (acc @ [x], p)"
    "loop_inv (acc @ [x], p)" by blast
  from Cons.prems(1) have "canon db (if acc @ [x] = [] then None else Some (last (acc @ [x]))) xs"
    by simp
  from Cons.IH[OF this p(2)] p(1) show ?case by simp
qed


subsection \<open>Lines that are all discarded\<close>

lemma foldl_process_line_discard:
  "\<forall>line\<in>set ls. indented (rstrip_nl line) \<or> strip db (rstrip_nl line) = [] \<Longrightarrow>
   prev \<noteq> Some Title \<Longrightarrow> prev \<noteq> Some Text \<Longrightarrow>
   fst (foldl (process_line db) ([], prev) ls) = []"
proof (induction ls arbitrary: prev)
  case Nil
  then show ?case by simp
next
  case (Cons line ls)
  have "process_line db ([], prev) line = ([], prev) \<or>
        process_line db ([], prev) line = ([], Some Empty)"
    using Cons.prems title_not_blank[of db "rstrip_nl line"]
    by (auto simp: process_line_eq Let_def)
  then show ?case
    using Cons.IH[of prev] Cons.IH[of "Some Empty"] Cons.prems by auto
qed


section \<open>Stripping the joined text\<close>

text \<open>
  Stripping the joined sequence only trims its first line on the left, drops an empty
  last line and trims the last line on the right; the canonical structure survives.
\<close>

lemma trim_head:
  assumes db: "ucd_basic db" and c: "canon db None (c # rest)"
  shows "lstrip db (join (c # rest)) = join (lstrip db c # rest) \<and>
         canon db None (lstrip db c # rest)"
proof -
  from c have nb: "strip db c \<noteq> []" and nt: "\<not> is_title_line db c" by auto
  have j: "lstrip db (join (c # rest)) = join (lstrip db c # rest)"
  proof (cases rest)
    case Nil
    then show ?thesis by simp
  next
    case (Cons y ys)
    then show ?thesis
      using lstrip_append[OF nonblank_has_nonspace[OF nb], of "LF # join (y # ys)"] by simp
  qed
  have "canon db (Some (lstrip db c)) rest"
    using c db by (auto intro!: canon_prev_change[of db c rest] simp: lstrip_DELIM lstrip_nonblank)
  then have k: "canon db None (lstrip db c # rest)"
    using c nb nt set_lstrip[of db c] not_indented_lstrip[OF db, of c] by auto
  from j k show ?thesis by blast
qed

lemma trim_last:
  assumes c: "canon db None (E @ [d])" and nb: "strip db d \<noteq> []"
  shows "rstrip db (join (E @ [d])) = join (E @ [rstrip db d]) \<and>
         canon db None (E @ [rstrip db d])"
proof -
  have j: "rstrip db (join (E @ [d])) = join (E @ [rstrip db d])"
  proof (cases "E = []")
    case True
    then show ?thesis by simp
  next
    case False
    then show ?thesis
      using rstrip_append[OF nonblank_has_nonspace[OF nb], of "join E @ [LF]"]
      by (simp add: join_snoc)
  qed
  have k: "canon db None (E @ [rstrip db d])"
    using c nb set_rstrip[of db d] indented_rstrip[of db d]
    by (auto simp: canon_append)
  from j k show ?thesis by blast
qed

lemma trim_blank:
  assumes db: "ucd_basic db" and c: "canon db None (E @ [[]])"
  shows "E \<noteq> [] \<and> strip db (last E) \<noteq> [] \<and>
         rstrip db (join (E @ [[]])) = rstrip db (join E) \<and> canon db None E"
proof -
  from c have E: "E \<noteq> []" "last E \<noteq> []" "canon db None E"
    by (auto simp: canon_append split: if_splits)
  then obtain F e where Fe: "E = F @ [e]" by (metis rev_exhaust)
  with E have nb: "strip db e \<noteq> []" by (auto simp: canon_append)
  have j: "rstrip db (join (E @ [[]])) = rstrip db (join E)"
    using E(1) db rstrip_snoc[of db "join E" LF] by (simp add: join_snoc ucd_basic_def)
  from E nb j Fe show ?thesis by simp
qed

lemma trim_head_delims:
  assumes db: "ucd_basic db" and c: "canon db None (c # rest)"
    and d: "delims_followed db (c # rest)" and e: "ends_exact db (c # rest)"
  shows "delims_followed db (lstrip db c # rest) \<and> ends_exact db (lstrip db c # rest)"
proof -
  from c have nb: "strip db c \<noteq> []" by auto
  from e nb have hd: "strip db c = DELIM \<longrightarrow> c = DELIM"
    by (simp add: ends_exact_def)
  have x: "lstrip db c = DELIM \<longrightarrow> c = DELIM"
  proof
    assume "lstrip db c = DELIM"
    then have "strip db (lstrip db c) = DELIM" using strip_DELIM[OF db] by simp
    with hd show "c = DELIM" by simp
  qed
  have 1: "delims_followed db (lstrip db c # rest)"
    using d x by (auto simp: delims_followed_Cons)
  have y: "strip db (lstrip db c) = DELIM \<longrightarrow> lstrip db c = DELIM"
    using hd lstrip_DELIM[OF db] by auto
  have 2: "ends_exact db (lstrip db c # rest)"
    using e nb y by (auto simp: ends_exact_def Let_def)
  from 1 2 show ?thesis ..
qed

lemma trim_last_delims:
  assumes db: "ucd_basic db" and nb: "strip db d \<noteq> []"
    and f: "delims_followed db (E @ [d])" and e: "ends_exact db (E @ [d])"
  shows "delims_followed db (E @ [rstrip db d])"
proof -
  from e nb have "strip db d = DELIM \<longrightarrow> d = DELIM"
    by (simp add: ends_exact_def Let_def)
  moreover from f have "d \<noteq> DELIM" by (simp add: delims_followed_snoc)
  ultimately have "strip db d \<noteq> DELIM" by auto
  have "rstrip db d \<noteq> DELIM"
  proof
    assume "rstrip db d = DELIM"
    then have "strip db (rstrip db d) = strip db DELIM" by (simp only:)
    then have "strip db d = DELIM" using strip_DELIM[OF db] by simp
    with \<open>strip db d \<noteq> DELIM\<close> show False by simp
  qed
  from delims_followed_snoc_change[OF f this] show ?thesis by simp
qed

lemma trim_blank_delims:
  assumes f: "delims_followed db (E @ [[]])" and e: "ends_exact db (E @ [[]])"
  shows "delims_followed db E \<and> ends_exact db E"
  using delims_followed_butlast[OF f] e by (simp add: ends_exact_def)

lemma trim_lines:
  assumes db: "ucd_basic db" and c: "canon db None C" and ne: "C \<noteq> []"
  shows "\<exists>L. L \<noteq> [] \<and> strip db (join C) = join L \<and> canon db None L \<and>
             (delims_followed db C \<and> ends_exact db C \<longrightarrow> delims_followed db L) \<and>
             (\<forall>x\<in>set C. is_title_line db x \<longrightarrow> x \<in> set L \<or> last L = rstrip db x)"
proof -
  from ne obtain c0 rest where C: "C = c0 # rest" by (cases C) auto
  define D where "D = lstrip db c0 # rest"
  from c have nt: "\<not> is_title_line db c0" by (simp add: C)
  from trim_head[OF db c[unfolded C]]
  have D: "lstrip db (join C) = join D" "canon db None D"
    by (simp_all add: C D_def)
  have Dd: "delims_followed db D \<and> ends_exact db D"
    if "delims_followed db C \<and> ends_exact db C"
    using trim_head_delims[OF db c[unfolded C]] that by (simp add: C D_def)
  have Dt: "x \<in> set D" if "x \<in> set C" "is_title_line db x" for x
    using that nt by (auto simp: C D_def)
  have s: "strip db (join C) = rstrip db (join D)"
    by (simp add: strip_def D(1))
  have "D \<noteq> []" by (simp add: D_def)
  then obtain E d where Ed: "D = E @ [d]" by (metis rev_exhaust)
  show ?thesis
  proof (cases "strip db d = []")
    case False
    from trim_last[OF D(2)[unfolded Ed] False]
    have 1: "rstrip db (join D) = join (E @ [rstrip db d])" "canon db None (E @ [rstrip db d])"
      by (simp_all add: Ed)
    have 2: "delims_followed db (E @ [rstrip db d])"
      if "delims_followed db C \<and> ends_exact db C"
      using trim_last_delims[OF db False] Dd[OF that] by (simp add: Ed)
    have 3: "x \<in> set (E @ [rstrip db d]) \<or> last (E @ [rstrip db d]) = rstrip db x"
      if "x \<in> set C" "is_title_line db x" for x
      using Dt[OF that] by (auto simp: Ed)
    from 1 2 3 s show ?thesis
      by (intro exI[of _ "E @ [rstrip db d]"]) auto
  next
    case True
    with D(2) have d: "d = []" by (auto simp: Ed canon_append)
    from trim_blank[OF db D(2)[unfolded Ed d]]
    have E: "E \<noteq> []" "strip db (last E) \<noteq> []" "rstrip db (join D) = rstrip db (join E)"
      "canon db None E"
      by (simp_all add: Ed d)
    have Ed': "delims_followed db E \<and> ends_exact db E"
      if "delims_followed db C \<and> ends_exact db C"
      using trim_blank_delims[of db E] Dd[OF that] by (simp add: Ed d)
    have Et: "x \<in> set E" if "x \<in> set C" "is_title_line db x" for x
      using Dt[OF that] that(2) by (auto simp: Ed d)
    from E(1) obtain F e where Fe: "E = F @ [e]" by (metis rev_exhaust)
    with E(2) have nb: "strip db e \<noteq> []" by simp
    from trim_last[OF E(4)[unfolded Fe] nb]
    have 1: "rstrip db (join E) = join (F @ [rstrip db e])" "canon db None (F @ [rstrip db e])"
      by (simp_all add: Fe)
    have 2: "delims_followed db (F @ [rstrip db e])"
      if "delims_followed db C \<and> ends_exact db C"
      using trim_last_delims[OF db nb] Ed'[OF that] by (simp add: Fe)
    have 3: "x \<in> set (F @ [rstrip db e]) \<or> last (F @ [rstrip db e]) = rstrip db x"
      if "x \<in> set C" "is_title_line db x" for x
      using Et[OF that] by (auto simp: Fe)
    from 1 2 3 s E(3) show ?thesis
      by (intro exI[of _ "F @ [rstrip db e]"]) auto
  qed
qed

section \<open>The written text and its lines\<close>

lemma canon_join_no_CR: "canon db l L \<Longrightarrow> CR \<notin> set (join L)"
  using set_join[of L] canon_set[of db l L] by auto

lemma file_lines_join:
  assumes "canon db l L" and "L \<noteq> []"
  shows "file_lines (join L @ [LF]) = L"
proof -
  have "universal_newlines (join L @ [LF]) = join L @ [LF]"
    using canon_join_no_CR[OF assms(1)] by (simp add: universal_newlines_id)
  moreover have "readlines (join L @ [LF]) = map (\<lambda>x. x @ [LF]) L"
    using readlines_join[OF assms(2)] canon_set[OF assms(1)] by blast
  moreover have "map rstrip_nl (map (\<lambda>x. x @ [LF]) L) = L"
    using canon_set[OF assms(1)] by (simp add: map_idI rstrip_nl_id)
  ultimately show ?thesis by (simp add: file_lines_def)
qed

lemma file_lines_LF: "file_lines [LF] = [[]]"
  by (simp add: file_lines_def)

lemma clean_text_LF: "clean_text db [LF] = [LF]"
  by (simp add: clean_text_def final_text_def clean_lines_def clean_loop_def
      process_line_eq Let_def)

lemma clean_text_structure:
  assumes db: "ucd_basic db"
  shows "(clean_lines db (readlines (universal_newlines text)) = [] \<and> clean_text db text = [LF]) \<or>
    (\<exists>L. L \<noteq> [] \<and> clean_text db text = join L @ [LF] \<and> canon db None L \<and>
          strip db (join L) = join L \<and>
          (delims_followed db (clean_lines db (readlines (universal_newlines text))) \<and>
           ends_exact db (clean_lines db (readlines (universal_newlines text)))
             \<longrightarrow> delims_followed db L) \<and>
          (\<forall>x\<in>set (clean_lines db (readlines (universal_newlines text))).
             is_title_line db x \<longrightarrow> x \<in> set L \<or> last L = rstrip db x))"
proof (cases "clean_lines db (readlines (universal_newlines text)) = []")
  case True
  then show ?thesis by (simp add: clean_text_def final_text_def)
next
  case False
  define C where "C = clean_lines db (readlines (universal_newlines text))"
  from trim_lines[OF db clean_lines_canon[OF db, of "text"] False]
  obtain L where L: "L \<noteq> []" "strip db (join C) = join L" "canon db None L"
    "delims_followed db C \<and> ends_exact db C \<longrightarrow> delims_followed db L"
    "\<forall>x\<in>set C. is_title_line db x \<longrightarrow> x \<in> set L \<or> last L = rstrip db x"
    unfolding C_def by blast
  have "strip db (join L) = join L"
    using L(2) strip_idem[of db "join C"] by simp
  moreover have "clean_text db text = join L @ [LF]"
    using L(2) by (simp add: clean_text_def final_text_def C_def)
  ultimately show ?thesis
    using L False unfolding C_def by blast
qed

lemma clean_text_fixed:
  assumes L: "canon db None L" "strip db (join L) = join L" "L \<noteq> []"
  shows "clean_text db (join L @ [LF]) = join L @ [LF]"
proof -
  have "universal_newlines (join L @ [LF]) = join L @ [LF]"
    using canon_join_no_CR[OF L(1)] by (simp add: universal_newlines_id)
  moreover have "readlines (join L @ [LF]) = map (\<lambda>x. x @ [LF]) L"
    using readlines_join[OF L(3)] canon_set[OF L(1)] by blast
  moreover have "clean_lines db (map (\<lambda>x. x @ [LF]) L) = L"
    using foldl_process_line_fixed[of db "[]" L None] L(1)
    by (auto simp: clean_lines_def clean_loop_def loop_inv_def)
  ultimately show ?thesis by (simp add: clean_text_def final_text_def L(2))
qed

lemma output_lines_cases:
  assumes db: "ucd_basic db"
  shows "(output_lines db text = [[]] \<and> clean_text db text = [LF]) \<or>
    (output_lines db text \<noteq> [] \<and> canon db None (output_lines db text) \<and>
     clean_text db text = join (output_lines db text) @ [LF] \<and>
     strip db (join (output_lines db text)) = join (output_lines db text))"
  using clean_text_structure[OF db, of "text"] file_lines_join[of db None]
  by (auto simp: output_lines_def file_lines_LF)

lemma output_lines_delims:
  assumes db: "ucd_basic db"
    and f: "delims_followed db (uncommented_lines text)"
    and e: "ends_exact db (uncommented_lines text)"
  shows "delims_followed db (output_lines db text)"
proof -
  have "delims_followed db [[]]" by (simp add: delims_followed_def)
  then show ?thesis
    using clean_text_structure[OF db, of "text"] file_lines_join[of db None]
      clean_lines_followed[OF db f] clean_lines_ends_exact[OF db e]
    by (auto simp: output_lines_def file_lines_LF)
qed

lemma no_delims_followed:
  assumes db: "ucd_basic db"
    and H: "\<forall>line\<in>set (file_lines text). strip db line \<noteq> DELIM"
  shows "delims_followed db (uncommented_lines text) \<and> ends_exact db (uncommented_lines text)"
proof -
  have n: "y \<noteq> DELIM \<and> strip db y \<noteq> DELIM" if "y \<in> set (uncommented_lines text)" for y
    using that H strip_DELIM[OF db] by (auto simp: uncommented_lines_def)
  then have "\<forall>i<length (uncommented_lines text). uncommented_lines text ! i \<noteq> DELIM"
    by (metis nth_mem)
  then have 1: "delims_followed db (uncommented_lines text)"
    by (simp add: delims_followed_nth_iff)
  have "x \<in> set (uncommented_lines text)"
    if "x \<in> set (filter (\<lambda>x. strip db x \<noteq> []) (uncommented_lines text))" for x
    using that by simp
  with n have "strip db x \<noteq> DELIM"
    if "x \<in> set (filter (\<lambda>x. strip db x \<noteq> []) (uncommented_lines text))" for x
    using that by blast
  then have 2: "ends_exact db (uncommented_lines text)"
    unfolding ends_exact_def Let_def
    by (metis hd_in_set last_in_set)
  from 1 2 show ?thesis ..
qed

lemma output_lines_title:
  assumes db: "ucd_basic db"
    and l: "line \<in> set (readlines (universal_newlines text))"
    and t: "\<not> indented (rstrip_nl line)" "is_title_line db (rstrip_nl line)"
  shows "rstrip_nl line \<in> set (output_lines db text) \<or>
         last (output_lines db text) = rstrip db (rstrip_nl line)"
proof -
  from clean_lines_title[OF l t]
  have x: "rstrip_nl line \<in> set (clean_lines db (readlines (universal_newlines text)))" .
  then have "clean_lines db (readlines (universal_newlines text)) \<noteq> []" by auto
  with clean_text_structure[OF db, of "text"] x t(2) file_lines_join[of db None]
  show ?thesis
    by (auto simp: output_lines_def)
qed

lemma last_output_line:
  assumes db: "ucd_basic db" and ne: "clean_text db text \<noteq> [LF]"
  shows "strip db (last (output_lines db text)) \<noteq> []"
proof -
  define L where "L = output_lines db text"
  from output_lines_cases[OF db, of "text"] ne
  have L: "L \<noteq> []" "canon db None L" "strip db (join L) = join L"
    by (auto simp: L_def)
  from L(1) obtain E d where Ed: "L = E @ [d]" by (metis rev_exhaust)
  show ?thesis
  proof
    assume "strip db (last (output_lines db text)) = []"
    then have b: "strip db d = []" by (simp add: L_def[symmetric] Ed)
    with L(2) have d: "d = []" "E \<noteq> []" by (auto simp: Ed canon_append split: if_splits)
    then have "strip db (join L) = join E @ [LF]"
      using L(3) by (simp add: Ed join_snoc)
    from strip_last_not_space[OF this] db show False by (simp add: ucd_basic_def)
  qed
qed


section \<open>Evaluating examples\<close>

lemmas eval_defs = py_def clean_text_def final_text_def clean_lines_def clean_loop_def
  process_line_def is_title_line_def strip_def lstrip_def rstrip_def rstrip_nl_def
  startswith_def ucd_sample_def Let_def file_lines_def output_lines_def indented_def
  example_input_def example_output_def spec_is_title_def letters_cased_def
  delims_followed_def uncommented_lines_def ends_exact_def

lemma ucd_basic_sample: "ucd_basic ucd_sample"
  by (simp add: ucd_basic_def ucd_sample_def)


section \<open>The claims\<close>

subsection \<open>C1: idempotence\<close>

text \<open>
  Claim C1. Running the transformation on its own output gives that output again: for
  every text read, cleaning the cleaned text changes nothing, and a second run of
  \<^verbatim>\<open>clean_fables\<close> on the same path leaves every file as the first run left it. It
  holds for every character database in which newline, space and tab are whitespace
  and \<^verbatim>\<open>#\<close> is neither whitespace nor a letter.
\<close>

theorem clean_idempotent:
  assumes "ucd_basic db"
  shows "clean_text db (clean_text db text) = clean_text db text \<and>
         files (snd (clean_fables db p (snd (clean_fables db p w)))) =
           files (snd (clean_fables db p w))"
proof -
  have 1: "clean_text db (clean_text db t) = clean_text db t" for t
    using clean_text_structure[OF assms, of t] clean_text_LF clean_text_fixed by auto
  then show ?thesis
    by (simp add: clean_fables_def split: option.splits node.splits)
qed

text \<open>The first example of the specification: its expected output is a fixed point.\<close>

theorem clean_idempotent_witness:
  "ucd_basic ucd_sample \<and> clean_text ucd_sample example_input = example_output \<and>
   clean_text ucd_sample example_output = example_output"
proof -
  have h: "ucd_basic ucd_sample" by (simp add: ucd_basic_def ucd_sample_def)
  have v: "clean_text ucd_sample example_input = example_output" by (simp add: eval_defs)
  from clean_idempotent[OF h, of example_input] v h show ?thesis by simp
qed

subsection \<open>C2: delimiter placement\<close>

text \<open>
  Claim C2, as stated, fails: a line \<^verbatim>\<open>###\<close> of the input is kept as a body line
  (that is how the title of an already cleaned file finds its delimiter in place), so
  the output can hold a delimiter line that no title follows and two delimiter lines in
  a row. The strip of the whole text can also lay a delimiter line bare: a first line
  that is a form feed followed by \<^verbatim>\<open>###\<close> is written as \<^verbatim>\<open>###\<close>.
\<close>

theorem delimiter_placement_counterexample:
  "output_lines ucd_sample (py ''###\<newline>hello\<newline>###\<newline>###\<newline>'') =
     [DELIM, py ''hello'', DELIM, DELIM] \<and>
   \<not> is_title_line ucd_sample (py ''hello'') \<and>
   output_lines ucd_sample (12 # py ''###\<newline>hello\<newline>'') = [DELIM, py ''hello'']"
  by (simp add: eval_defs)

text \<open>
  Claim C2, amended. In the output, every title line is immediately preceded by a
  delimiter line. Every delimiter line of the output is immediately followed by a title
  line, and no two delimiter lines are consecutive, whenever the input, its commentary
  lines left out, is as much: every line of it equal to \<^verbatim>\<open>###\<close> is immediately
  followed by a title line, and its first and last lines that are not whitespace-only
  are not \<^verbatim>\<open>###\<close> with extra whitespace around it. Every input without a line that
  trims to \<^verbatim>\<open>###\<close> is of this kind (lemma \<open>no_delims_followed\<close>), and so is the
  expected output of the specification's example.
\<close>

theorem delimiter_placement:
  assumes db: "ucd_basic db"
  shows "(\<forall>i<length (output_lines db text).
            is_title_line db (output_lines db text ! i) \<longrightarrow>
              0 < i \<and> output_lines db text ! (i - 1) = DELIM) \<and>
         ((\<forall>i<length (uncommented_lines text).
             uncommented_lines text ! i = DELIM \<longrightarrow>
               Suc i < length (uncommented_lines text) \<and>
               is_title_line db (uncommented_lines text ! Suc i)) \<and>
          ends_exact db (uncommented_lines text) \<longrightarrow>
            (\<forall>i<length (output_lines db text).
               output_lines db text ! i = DELIM \<longrightarrow>
                 Suc i < length (output_lines db text) \<and>
                 is_title_line db (output_lines db text ! Suc i)) \<and>
            (\<forall>i. Suc i < length (output_lines db text) \<longrightarrow>
               \<not> (output_lines db text ! i = DELIM \<and> output_lines db text ! Suc i = DELIM)))"
proof -
  define L where "L = output_lines db text"
  have a: "0 < i \<and> L ! (i - 1) = DELIM" if "i < length L" "is_title_line db (L ! i)" for i
  proof -
    from that have "L \<noteq> [[]]" by (cases i) auto
    with output_lines_cases[OF db, of "text"] have "canon db None L" by (auto simp: L_def)
    from canon_nth_title[OF this that] show ?thesis by (cases i) auto
  qed
  have b: "Suc i < length L \<and> is_title_line db (L ! Suc i)"
    if H: "\<forall>i<length (uncommented_lines text).
             uncommented_lines text ! i = DELIM \<longrightarrow>
               Suc i < length (uncommented_lines text) \<and>
               is_title_line db (uncommented_lines text ! Suc i)"
      and E: "ends_exact db (uncommented_lines text)"
      and i: "i < length L" "L ! i = DELIM" for i
  proof -
    from H have "delims_followed db (uncommented_lines text)"
      by (simp only: delims_followed_nth_iff)
    from output_lines_delims[OF db this E] have "delims_followed db L" by (simp add: L_def)
    with i show ?thesis by (simp only: delims_followed_nth_iff)
  qed
  have c: "\<not> (L ! i = DELIM \<and> L ! Suc i = DELIM)"
    if H: "\<forall>i<length (uncommented_lines text).
             uncommented_lines text ! i = DELIM \<longrightarrow>
               Suc i < length (uncommented_lines text) \<and>
               is_title_line db (uncommented_lines text ! Suc i)"
      and E: "ends_exact db (uncommented_lines text)"
      and i: "Suc i < length L" for i
    using b[OF H E, of i] i not_title_DELIM[OF db] by auto
  from a b c show ?thesis unfolding L_def by blast
qed

text \<open>The expected output of the specification's example, taken as the input.\<close>

theorem delimiter_placement_witness:
  "ucd_basic ucd_sample \<and>
   delims_followed ucd_sample (uncommented_lines example_output) \<and>
   ends_exact ucd_sample (uncommented_lines example_output) \<and>
   uncommented_lines example_output ! 0 = DELIM \<and>
   output_lines ucd_sample example_output ! 5 = DELIM \<and>
   is_title_line ucd_sample (output_lines ucd_sample example_output ! 6) \<and>
   is_title_line ucd_sample (output_lines ucd_sample example_output ! 1) \<and>
   output_lines ucd_sample example_output ! 0 = DELIM"
proof -
  have h: "ucd_basic ucd_sample" by (simp add: ucd_basic_def ucd_sample_def)
  have U: "uncommented_lines example_output =
    [DELIM, py ''THE FOX AND THE GRAPES'', [], py ''A hungry fox saw some grapes.'', [],
     DELIM, py ''THE ANT AND THE GRASSHOPPER'', py ''Winter came.'']"
    by (simp add: eval_defs)
  have F: "delims_followed ucd_sample (uncommented_lines example_output)"
    unfolding U by (simp add: eval_defs)
  have E: "ends_exact ucd_sample (uncommented_lines example_output)"
    unfolding U by (simp add: eval_defs)
  have L: "output_lines ucd_sample example_output =
    [DELIM, py ''THE FOX AND THE GRAPES'', [], py ''A hungry fox saw some grapes.'', [],
     DELIM, py ''THE ANT AND THE GRASSHOPPER'', py ''Winter came.'']"
    by (simp add: eval_defs)
  have t: "is_title_line ucd_sample (output_lines ucd_sample example_output ! 1)"
    unfolding L by (simp add: eval_defs)
  from F have H: "\<forall>i<length (uncommented_lines example_output).
             uncommented_lines example_output ! i = DELIM \<longrightarrow>
               Suc i < length (uncommented_lines example_output) \<and>
               is_title_line ucd_sample (uncommented_lines example_output ! Suc i)"
    by (simp only: delims_followed_nth_iff)
  from delimiter_placement[OF h, of example_output] H E
  have 1: "\<forall>i<length (output_lines ucd_sample example_output).
             output_lines ucd_sample example_output ! i = DELIM \<longrightarrow>
             Suc i < length (output_lines ucd_sample example_output) \<and>
             is_title_line ucd_sample (output_lines ucd_sample example_output ! Suc i)"
    and 2: "\<forall>i<length (output_lines ucd_sample example_output).
            is_title_line ucd_sample (output_lines ucd_sample example_output ! i) \<longrightarrow>
              0 < i \<and> output_lines ucd_sample example_output ! (i - 1) = DELIM"
    by blast+
  have d: "output_lines ucd_sample example_output ! 5 = DELIM" by (simp add: L)
  have "(5::nat) < length (output_lines ucd_sample example_output)" by (simp add: L)
  with 1 d have a: "is_title_line ucd_sample (output_lines ucd_sample example_output ! Suc 5)"
    by blast
  have "(1::nat) < length (output_lines ucd_sample example_output)" by (simp add: L)
  with 2 t have b: "output_lines ucd_sample example_output ! (1 - 1) = DELIM" by blast
  have u: "uncommented_lines example_output ! 0 = DELIM" by (simp add: U)
  from h F E u d a t b show ?thesis by (simp add: eval_nat_numeral)
qed

subsection \<open>C3: how a title line is emitted\<close>

text \<open>
  Claim C3, as stated, fails: the loop appends \<^verbatim>\<open>line.rstrip("\n")\<close>, not the trimmed
  line, so a title with a trailing space is emitted with it, and written with it
  unless it is the last line of the file.
\<close>

theorem title_emitted_untrimmed_counterexample:
  "is_title_line ucd_sample (rstrip_nl (py ''TITLE \<newline>'')) \<and>
   process_line ucd_sample ([], None) (py ''TITLE \<newline>'') =
     ([DELIM, py ''TITLE ''], Some Title) \<and>
   strip ucd_sample (py ''TITLE \<newline>'') = py ''TITLE'' \<and>
   clean_text ucd_sample (py ''TITLE \<newline>body\<newline>'') = py ''###\<newline>TITLE \<newline>body\<newline>''"
  by (simp add: eval_defs)

text \<open>
  Claim C3, amended. For every input line classified as a title, the loop appends the
  delimiter when the last entry is not one, and then the line without its trailing
  newline characters; whitespace around the title is kept, and the entry and the line
  trim to the same text. In the written file the title line is that entry as it is, or
  it is the last line of the file and is that entry without its trailing whitespace.
\<close>

theorem title_emitted_untrimmed:
  assumes "isspace db LF"
    and "\<not> indented (rstrip_nl line)" and "is_title_line db (rstrip_nl line)"
  shows "fst (process_line db (cleaned_lines, prev) line) =
           (if cleaned_lines = [] \<or> last cleaned_lines \<noteq> DELIM
            then cleaned_lines @ [DELIM] else cleaned_lines) @ [rstrip_nl line] \<and>
         strip db (rstrip_nl line) = strip db line \<and>
         (ucd_basic db \<and> line \<in> set (readlines (universal_newlines text)) \<longrightarrow>
            rstrip_nl line \<in> set (output_lines db text) \<or>
            last (output_lines db text) = rstrip db (rstrip_nl line))"
  using assms output_lines_title[of db line "text"]
  by (simp add: process_line_eq Let_def strip_rstrip_nl)

theorem title_emitted_untrimmed_witness:
  "isspace ucd_sample LF \<and> \<not> indented (rstrip_nl (py ''TITLE \<newline>'')) \<and>
   is_title_line ucd_sample (rstrip_nl (py ''TITLE \<newline>'')) \<and>
   ucd_basic ucd_sample \<and>
   py ''TITLE \<newline>'' \<in> set (readlines (universal_newlines (py ''TITLE \<newline>body\<newline>''))) \<and>
   fst (process_line ucd_sample ([], None) (py ''TITLE \<newline>'')) = [DELIM, py ''TITLE ''] \<and>
   strip ucd_sample (py ''TITLE '') = strip ucd_sample (py ''TITLE \<newline>'') \<and>
   py ''TITLE '' \<in> set (output_lines ucd_sample (py ''TITLE \<newline>body\<newline>'')) \<and>
   output_lines ucd_sample (py ''TITLE \<newline>'') = [DELIM, py ''TITLE'']"
proof -
  have 1: "isspace ucd_sample LF" by (simp add: ucd_sample_def)
  have 2: "\<not> indented (rstrip_nl (py ''TITLE \<newline>''))" by (simp add: eval_defs)
  have 3: "is_title_line ucd_sample (rstrip_nl (py ''TITLE \<newline>''))" by (simp add: eval_defs)
  have 4: "rstrip_nl (py ''TITLE \<newline>'') = py ''TITLE ''" by (simp add: eval_defs)
  have 5: "ucd_basic ucd_sample" by (simp add: ucd_basic_def ucd_sample_def)
  have 6: "py ''TITLE \<newline>'' \<in> set (readlines (universal_newlines (py ''TITLE \<newline>body\<newline>'')))"
    by (simp add: eval_defs)
  have 7: "last (output_lines ucd_sample (py ''TITLE \<newline>body\<newline>'')) \<noteq>
           rstrip ucd_sample (py ''TITLE '')"
    by (simp add: eval_defs)
  have 8: "output_lines ucd_sample (py ''TITLE \<newline>'') = [DELIM, py ''TITLE'']"
    by (simp add: eval_defs)
  from title_emitted_untrimmed[OF 1 2 3, of "[]" None "py ''TITLE \<newline>body\<newline>''"]
    1 2 3 5 6 7 8
  show ?thesis by (simp add: 4)
qed

subsection \<open>C4: the title rule\<close>

text \<open>
  Claim C4, as stated, fails: \<^verbatim>\<open>str.isupper\<close> looks at cased characters, not at
  letters. A line made of the ideograph U+4E2D (a letter without case) and \<^verbatim>\<open>A\<close> is
  classified as a title although one of its letters is not uppercase.
\<close>

theorem title_rule_counterexample:
  "is_title_line ucd_sample [20013, 65] \<and> \<not> spec_is_title ucd_sample [20013, 65]"
  by (simp add: eval_defs)

text \<open>
  Claim C4, amended. For every line whose trimmed text has letters and cased characters
  going together (each letter has a case, each lowercase or titlecase character is a
  letter, none is uppercase and lowercase or titlecase at once; so for every ASCII
  line), the line is classified as a title if and only if, after trimming, every
  alphabetic character is uppercase and there is at least one alphabetic character.
\<close>

theorem title_rule:
  assumes "letters_cased db (strip db line)"
  shows "is_title_line db line = spec_is_title db line"
proof (cases "length (strip db line) = 1")
  case True
  then obtain c where "strip db line = [c]"
    by (cases "strip db line") auto
  then show ?thesis
    by (auto simp: is_title_line_def spec_is_title_def)
next
  case False
  from str_isupper_long[OF False, of db] cased_letters_rule[OF assms]
  show ?thesis
    by (simp add: is_title_line_def spec_is_title_def Let_def conj_assoc)
qed

theorem title_rule_witness:
  "letters_cased ucd_sample (strip ucd_sample (py ''  THE FOX '')) \<and>
   is_title_line ucd_sample (py ''  THE FOX '') \<and>
   spec_is_title ucd_sample (py ''  THE FOX '')"
proof -
  have 1: "letters_cased ucd_sample (strip ucd_sample (py ''  THE FOX ''))"
    by (simp add: eval_defs)
  have 2: "spec_is_title ucd_sample (py ''  THE FOX '')" by (simp add: eval_defs)
  from title_rule[OF 1] 1 2 show ?thesis by simp
qed

subsection \<open>C5: a missing file\<close>

text \<open>
  Claim C5. When the path names nothing, \<^verbatim>\<open>clean_fables\<close> raises
  \<^verbatim>\<open>FileNotFoundError\<close> and the world (the files and the standard output) is left as it
  was: nothing is read, written or printed.
\<close>

theorem missing_file:
  assumes "files w file_path = None"
  shows "clean_fables db file_path w = (Some FileNotFoundError, w)"
  using assms by (simp add: clean_fables_def)

theorem missing_file_witness:
  "files \<lparr>files = Map.empty, stdout = []\<rparr> (py ''fables.txt'') = None \<and>
   clean_fables ucd_sample (py ''fables.txt'') \<lparr>files = Map.empty, stdout = []\<rparr> =
     (Some FileNotFoundError, \<lparr>files = Map.empty, stdout = []\<rparr>)"
proof -
  have 1: "files \<lparr>files = Map.empty, stdout = []\<rparr> (py ''fables.txt'') = None" by simp
  from missing_file[OF 1, of ucd_sample] 1 show ?thesis by simp
qed

subsection \<open>C6: blank lines\<close>

text \<open>
  Claim C6. The output line sequence never holds two consecutive empty lines, and not
  even two consecutive whitespace-only lines.
\<close>

theorem blank_lines_collapsed:
  assumes db: "ucd_basic db"
  shows "\<forall>i. Suc i < length (output_lines db text) \<longrightarrow>
           \<not> (output_lines db text ! i = [] \<and> output_lines db text ! Suc i = []) \<and>
           \<not> (strip db (output_lines db text ! i) = [] \<and>
              strip db (output_lines db text ! Suc i) = [])"
proof (intro allI impI)
  fix i assume i: "Suc i < length (output_lines db text)"
  then have "output_lines db text \<noteq> [[]]" by auto
  with output_lines_cases[OF db, of "text"] have "canon db None (output_lines db text)" by auto
  from canon_nth_blank[OF this i]
  show "\<not> (output_lines db text ! i = [] \<and> output_lines db text ! Suc i = []) \<and>
        \<not> (strip db (output_lines db text ! i) = [] \<and>
           strip db (output_lines db text ! Suc i) = [])"
    by auto
qed

theorem blank_lines_collapsed_witness:
  "ucd_basic ucd_sample \<and>
   output_lines ucd_sample (py ''a\<newline>\<newline>\<newline>\<newline>b\<newline>'') = [py ''a'', [], py ''b'']"
proof -
  have h: "ucd_basic ucd_sample" by (simp add: ucd_basic_def ucd_sample_def)
  have "output_lines ucd_sample (py ''a\<newline>\<newline>\<newline>\<newline>b\<newline>'') = [py ''a'', [], py ''b'']"
    by (simp add: eval_defs)
  with blank_lines_collapsed[OF h, of "py ''a\<newline>\<newline>\<newline>\<newline>b\<newline>''"] h show ?thesis by simp
qed

subsection \<open>C7: indentation\<close>

text \<open>
  Claim C7. No line of the output starts with a space or a tab, and a line of the input
  that starts with a space or a tab leaves the state of the loop as it was (nothing is
  emitted, the previous line type stays).
\<close>

theorem no_indentation_survives:
  assumes db: "ucd_basic db"
  shows "(\<forall>l\<in>set (output_lines db text). \<not> indented l) \<and>
         (indented (rstrip_nl line) \<longrightarrow> process_line db st line = st)"
proof -
  have "\<not> indented l" if "l \<in> set (output_lines db text)" for l
    using output_lines_cases[OF db, of "text"] that canon_set[of db None "output_lines db text" l]
    by auto
  moreover have "process_line db st line = st" if "indented (rstrip_nl line)"
    using that by (cases st) (simp add: process_line_eq Let_def)
  ultimately show ?thesis by blast
qed

theorem no_indentation_survives_witness:
  "ucd_basic ucd_sample \<and>
   list_all (\<lambda>l. \<not> indented l) (output_lines ucd_sample example_input) \<and>
   indented (rstrip_nl (py ''  (a note about origin)\<newline>'')) \<and>
   process_line ucd_sample ([DELIM], Some Title) (py ''  (a note about origin)\<newline>'') =
     ([DELIM], Some Title)"
proof -
  have h: "ucd_basic ucd_sample" by (simp add: ucd_basic_def ucd_sample_def)
  have i: "indented (rstrip_nl (py ''  (a note about origin)\<newline>''))" by (simp add: eval_defs)
  from no_indentation_survives[OF h, of example_input "py ''  (a note about origin)\<newline>''"
      "([DELIM], Some Title)"] h i
  show ?thesis by (simp add: list_all_iff)
qed

subsection \<open>C8: the trailing newline\<close>

text \<open>
  Claim C8. The written text ends with exactly one newline: it is some text followed by
  a newline, and that text is empty or does not end with a newline. There is no blank
  line at the end: when the text before the final newline is not empty, the last line
  of the file is not whitespace-only.
\<close>

theorem trailing_newline:
  assumes db: "ucd_basic db"
  shows "\<exists>body. clean_text db text = body @ [LF] \<and>
           (body = [] \<or>
            (last body \<noteq> LF \<and> strip db (last (output_lines db text)) \<noteq> []))"
proof -
  define body where "body = strip db (join (clean_lines db (readlines (universal_newlines text))))"
  have eq: "clean_text db text = body @ [LF]"
    by (simp add: clean_text_def final_text_def body_def)
  have "last body \<noteq> LF \<and> strip db (last (output_lines db text)) \<noteq> []" if "body \<noteq> []"
  proof -
    from that obtain r c where rc: "body = r @ [c]" by (metis rev_exhaust)
    then have "\<not> isspace db c" using strip_last_not_space[of db _ r c] by (simp add: body_def)
    with db rc have "last body \<noteq> LF" by (auto simp: ucd_basic_def)
    moreover have "clean_text db text \<noteq> [LF]" using eq that by simp
    ultimately show ?thesis using last_output_line[OF db] by simp
  qed
  with eq show ?thesis by blast
qed

theorem trailing_newline_witness:
  "ucd_basic ucd_sample \<and>
   clean_text ucd_sample (py ''a \<newline>\<newline>\<newline>'') = py ''a'' @ [LF] \<and>
   last (py ''a'') \<noteq> LF \<and>
   strip ucd_sample (last (output_lines ucd_sample (py ''a \<newline>\<newline>\<newline>''))) \<noteq> []"
proof -
  have h: "ucd_basic ucd_sample" by (simp add: ucd_basic_def ucd_sample_def)
  have v: "clean_text ucd_sample (py ''a \<newline>\<newline>\<newline>'') = py ''a'' @ [LF]" by (simp add: eval_defs)
  from trailing_newline[OF h, of "py ''a \<newline>\<newline>\<newline>''"] v h show ?thesis
    by (auto simp: py_def)
qed

subsection \<open>C9: nothing is emitted\<close>

text \<open>
  Claim C9. When the file exists and every line of it is commentary (it starts with a
  space or a tab) or whitespace-only, which includes the empty file, the file is
  overwritten with the single newline character, and the notice is printed.
\<close>

theorem empty_result:
  assumes "files w file_path = Some (File text)"
    and "\<forall>line\<in>set (file_lines text). indented line \<or> strip db line = []"
  shows "clean_fables db file_path w =
           (None, w\<lparr> files := (files w)(file_path \<mapsto> File [LF]),
                     stdout := stdout w @ [notice file_path] \<rparr>)"
proof -
  have "clean_lines db (readlines (universal_newlines text)) = []"
    using foldl_process_line_discard[of "readlines (universal_newlines text)" db None] assms(2)
    by (simp add: clean_lines_def clean_loop_def file_lines_def)
  then have "clean_text db text = [LF]"
    by (simp add: clean_text_def final_text_def)
  with assms(1) show ?thesis by (simp add: clean_fables_def)
qed

theorem empty_result_witness:
  "files \<lparr>files = [py ''f'' \<mapsto> File (py ''  a note\<newline>\<newline>'' @ [TAB, LF])], stdout = []\<rparr> (py ''f'') =
     Some (File (py ''  a note\<newline>\<newline>'' @ [TAB, LF])) \<and>
   list_all (\<lambda>line. indented line \<or> strip ucd_sample line = [])
     (file_lines (py ''  a note\<newline>\<newline>'' @ [TAB, LF])) \<and>
   fst (clean_fables ucd_sample (py ''f'')
     \<lparr>files = [py ''f'' \<mapsto> File (py ''  a note\<newline>\<newline>'' @ [TAB, LF])], stdout = []\<rparr>) = None \<and>
   files (snd (clean_fables ucd_sample (py ''f'')
     \<lparr>files = [py ''f'' \<mapsto> File (py ''  a note\<newline>\<newline>'' @ [TAB, LF])], stdout = []\<rparr>)) (py ''f'') =
     Some (File [LF])"
proof -
  have 1: "files \<lparr>files = [py ''f'' \<mapsto> File (py ''  a note\<newline>\<newline>'' @ [TAB, LF])], stdout = []\<rparr> (py ''f'') =
     Some (File (py ''  a note\<newline>\<newline>'' @ [TAB, LF]))" by simp
  have 2: "list_all (\<lambda>line. indented line \<or> strip ucd_sample line = [])
     (file_lines (py ''  a note\<newline>\<newline>'' @ [TAB, LF]))" by (simp add: eval_defs)
  then have 3: "\<forall>line\<in>set (file_lines (py ''  a note\<newline>\<newline>'' @ [TAB, LF])).
     indented line \<or> strip ucd_sample line = []" by (simp only: list_all_iff)
  from empty_result[OF 1 3] 1 2 show ?thesis by simp
qed

subsection \<open>C10: the written text is stripped\<close>

text \<open>
  Claim C10. The written text without its final newline is its own \<^verbatim>\<open>strip()\<close>: it
  neither starts nor ends with a whitespace character. In particular its last line
  does not end with a space or a tab, also when that line was a body line with trailing
  whitespace.
\<close>

theorem written_text_stripped:
  assumes db: "ucd_basic db"
  shows "\<exists>body. clean_text db text = body @ [LF] \<and> strip db body = body \<and>
           (body = [] \<or>
            (\<not> isspace db (hd body) \<and> \<not> isspace db (last body) \<and>
             last body \<noteq> SPACE \<and> last body \<noteq> TAB))"
proof -
  define body where "body = strip db (join (clean_lines db (readlines (universal_newlines text))))"
  have eq: "clean_text db text = body @ [LF]"
    by (simp add: clean_text_def final_text_def body_def)
  have id: "strip db body = body" by (simp add: body_def)
  have "\<not> isspace db (hd body) \<and> \<not> isspace db (last body) \<and>
        last body \<noteq> SPACE \<and> last body \<noteq> TAB" if "body \<noteq> []"
  proof -
    from that obtain r c where rc: "body = r @ [c]" by (metis rev_exhaust)
    from that obtain c' r' where rc': "body = c' # r'" by (cases body) auto
    have "\<not> isspace db c" using strip_last_not_space[of db body r c] id rc by simp
    then have l: "\<not> isspace db (last body)" by (simp add: rc)
    have "\<not> isspace db c'" using strip_hd_not_space[of db body c' r'] id rc' by simp
    then have h: "\<not> isspace db (hd body)" by (simp add: rc')
    from l h db show ?thesis by (auto simp: ucd_basic_def)
  qed
  with eq id show ?thesis by blast
qed

theorem written_text_stripped_witness:
  "ucd_basic ucd_sample \<and>
   clean_text ucd_sample (py ''body line  \<newline>'') = py ''body line'' @ [LF] \<and>
   strip ucd_sample (py ''body line'') = py ''body line'' \<and>
   \<not> isspace ucd_sample (hd (py ''body line'')) \<and>
   \<not> isspace ucd_sample (last (py ''body line''))"
proof -
  have h: "ucd_basic ucd_sample" by (simp add: ucd_basic_def ucd_sample_def)
  have v: "clean_text ucd_sample (py ''body line  \<newline>'') = py ''body line'' @ [LF]"
    by (simp add: eval_defs)
  from written_text_stripped[OF h, of "py ''body line  \<newline>''"] v h show ?thesis
    by (auto simp: py_def)
qed


end
